theory Spec2Isabelle
  imports Complex_Main "HOL-Library.Sublist"
begin

section \<open>Rubik cube A* solver: data model\<close>

text \<open>
  A cube state is what \<^verbatim>\<open>rub_cube.RubCube.get_State()\<close> hands to the solver: a tuple of
  faces, each a tuple of rows, each a tuple of colour numbers.  The solver reads it only
  through \<^verbatim>\<open>zip\<close> and \<^verbatim>\<open>==\<close>, so it is a nested list of Python integers.
\<close>

type_synonym state = "int list list list"

datatype error =
  ZeroDivisionError | IndexError | KeyError | TypeError | ValueError | AttributeError
  | InvalidState | InvalidMove

text \<open>The table \<^verbatim>\<open>cube_map\<close>: the piece that owns each sticker position.\<close>

definition cube_map :: "int list list list" where
  "cube_map =
    [[[0,  8, 1], [ 9, 20, 10], [2, 11, 3]],
     [[1, 12, 4], [10, 21, 13], [3, 14, 5]],
     [[4, 15, 6], [13, 22, 16], [5, 17, 7]],
     [[6, 18, 0], [16, 23,  9], [7, 19, 2]],
     [[0, 18, 6], [ 8, 24, 15], [1, 12, 4]],
     [[3, 14, 5], [11, 25, 17], [2, 19, 7]]]"

text \<open>The dictionary \<^verbatim>\<open>dict_cubies\<close>: the colours of each piece in the solved cube.\<close>

definition dict_cubies :: "int \<rightharpoonup> int list" where
  "dict_cubies = map_of
    [( 0, [0, 3, 4]), ( 1, [0, 1, 4]), ( 2, [0, 3, 5]), ( 3, [0, 1, 5]),
     ( 4, [1, 2, 4]), ( 5, [1, 2, 5]), ( 6, [2, 3, 4]), ( 7, [2, 3, 5]),
     ( 8, [0, 4]), ( 9, [0, 3]), (10, [0, 1]), (11, [0, 5]),
     (12, [1, 4]), (13, [1, 2]), (14, [1, 5]), (15, [2, 4]),
     (16, [2, 3]), (17, [2, 5]), (18, [3, 4]), (19, [3, 5])]"

section \<open>The heuristic\<close>

text \<open>
  \<^verbatim>\<open>correct_position\<close>: the loop over \<^verbatim>\<open>list_of_pairs\<close> with its flag.  The lookup
  \<^verbatim>\<open>dict_cubies[cubie]\<close> raises KeyError on a missing key.
\<close>

fun correct_position_loop :: "int \<Rightarrow> bool \<Rightarrow> (int \<times> int) list \<Rightarrow> error + bool" where
  "correct_position_loop cubie boolean [] = Inr boolean"
| "correct_position_loop cubie boolean (couple # rest) =
     (if fst couple = cubie then
        (case dict_cubies cubie of
           None \<Rightarrow> Inl KeyError
         | Some cols \<Rightarrow>
             (if snd couple \<notin> set cols then correct_position_loop cubie False rest
              else correct_position_loop cubie boolean rest))
      else correct_position_loop cubie boolean rest)"

definition correct_position :: "(int \<times> int) list \<Rightarrow> int \<Rightarrow> error + bool" where
  "correct_position list_of_pairs cubie =
     (if 0 \<le> cubie \<and> cubie < 20 then correct_position_loop cubie True list_of_pairs
      else Inr True)"

text \<open>
  \<^verbatim>\<open>correct_orientation\<close>: the walking index \<^verbatim>\<open>i\<close> starts at 0 and grows by one at each
  sticker of the piece that does not carry the colour \<^verbatim>\<open>dict_cubies[cubie][i]\<close>; that
  lookup raises IndexError once \<^verbatim>\<open>i\<close> reaches the length of the colour list.  For a
  piece outside \<^verbatim>\<open>range(0, 20)\<close> the function falls off its end and returns \<^verbatim>\<open>None\<close>.
\<close>

fun correct_orientation_loop :: "int \<Rightarrow> nat \<Rightarrow> (int \<times> int) list \<Rightarrow> error + bool" where
  "correct_orientation_loop cubie i [] = Inr False"
| "correct_orientation_loop cubie i (couple # rest) =
     (if fst couple = cubie then
        (case dict_cubies cubie of
           None \<Rightarrow> Inl KeyError
         | Some cols \<Rightarrow>
             (if i < length cols then
                (if snd couple = cols ! i then Inr True
                 else correct_orientation_loop cubie (i + 1) rest)
              else Inl IndexError))
      else correct_orientation_loop cubie i rest)"

definition correct_orientation :: "(int \<times> int) list \<Rightarrow> int \<Rightarrow> error + bool option" where
  "correct_orientation list_of_pairs cubie =
     (if 0 \<le> cubie \<and> cubie < 20 then
        (case correct_orientation_loop cubie 0 list_of_pairs of
           Inl e \<Rightarrow> Inl e
         | Inr boolean \<Rightarrow> Inr (Some boolean))
      else Inr None)"

text \<open>
  \<^verbatim>\<open>moves_for_correct_cubie\<close>: both checks run first, then the table.  A piece outside
  \<^verbatim>\<open>range(0, 20)\<close> matches neither \<^verbatim>\<open>if\<close> and the result is \<^verbatim>\<open>None\<close>.
\<close>

definition moves_for_correct_cubie :: "(int \<times> int) list \<Rightarrow> int \<Rightarrow> error + int option" where
  "moves_for_correct_cubie list_of_pairs cubie =
     (case correct_position list_of_pairs cubie of
        Inl e \<Rightarrow> Inl e
      | Inr bool_pos \<Rightarrow>
         (case correct_orientation list_of_pairs cubie of
            Inl e \<Rightarrow> Inl e
          | Inr bool_orient \<Rightarrow>
             (if 0 \<le> cubie \<and> cubie < 8 then
                (if bool_orient = Some True then
                   (if bool_pos then Inr (Some 0) else Inr (Some 1))
                 else Inr (Some 2))
              else if 8 \<le> cubie \<and> cubie < 20 then
                (if bool_pos then
                   (if bool_orient = Some True then Inr (Some 0) else Inr (Some 3))
                 else
                   (if bool_orient = Some True then Inr (Some 1) else Inr (Some 2)))
              else Inr None)))"

text \<open>
  The comprehension that builds \<^verbatim>\<open>list_of_pairs\<close>: three nested \<^verbatim>\<open>zip\<close>s of
  \<^verbatim>\<open>cube_map\<close> with the state, each stopping at the shorter argument.
\<close>

definition list_of_pairs_of :: "state \<Rightarrow> (int \<times> int) list" where
  "list_of_pairs_of st =
     concat (map (\<lambda>face. concat (map (\<lambda>row. zip (fst row) (snd row)) (zip (fst face) (snd face))))
                 (zip cube_map st))"

text \<open>
  The loop \<^verbatim>\<open>for i in range(20): sum_moves += ...\<close>; adding \<^verbatim>\<open>None\<close> to an integer
  raises TypeError.
\<close>

fun sum_moves_loop :: "(int \<times> int) list \<Rightarrow> int \<Rightarrow> int list \<Rightarrow> error + int" where
  "sum_moves_loop list_of_pairs sum_moves [] = Inr sum_moves"
| "sum_moves_loop list_of_pairs sum_moves (i # rest) =
     (case moves_for_correct_cubie list_of_pairs i of
        Inl e \<Rightarrow> Inl e
      | Inr None \<Rightarrow> Inl TypeError
      | Inr (Some m) \<Rightarrow> sum_moves_loop list_of_pairs (sum_moves + m) rest)"

text \<open>
  \<^verbatim>\<open>heuristic\<close>.  Python's \<^verbatim>\<open>/\<close> on integers is true division: it raises
  ZeroDivisionError for a zero divisor and otherwise yields the quotient, which is
  kept here as the exact rational number.
\<close>

definition heuristic :: "state \<Rightarrow> int \<Rightarrow> error + rat" where
  "heuristic st divisor =
     (case sum_moves_loop (list_of_pairs_of st) 0 [0..19] of
        Inl e \<Rightarrow> Inl e
      | Inr sum_moves \<Rightarrow>
          (if divisor = 0 then Inl ZeroDivisionError
           else Inr (of_int sum_moves / of_int divisor)))"

section \<open>Search nodes\<close>

text \<open>
  Node objects are shared: the frontier \<^verbatim>\<open>Q\<close>, the list \<^verbatim>\<open>visited_nodes\<close> and the
  \<^verbatim>\<open>parent\<close> attributes all refer to the same objects, and \<^verbatim>\<open>update_parent\<close> changes
  an object in place.  The objects therefore live in an explicit store, a list of node
  records; a reference is an index into it, and creating an object appends to it.
\<close>

type_synonym addr = nat
type_synonym move = "string \<times> int \<times> int"

record AStarNode =
  state :: state
  visited :: bool
  parent :: "addr option"
  rotation :: "move list option"
  g :: int
  h :: rat
  f :: rat

text \<open>\<^verbatim>\<open>AStarNode.__init__\<close>.\<close>

definition AStarNode_init ::
  "state \<Rightarrow> bool \<Rightarrow> addr option \<Rightarrow> int \<Rightarrow> rat \<Rightarrow> move list option \<Rightarrow> AStarNode" where
  "AStarNode_init st vis par g0 h0 rot =
     \<lparr>state = st, visited = vis, parent = par, rotation = rot, g = g0, h = h0, f = of_int g0 + h0\<rparr>"

text \<open>\<^verbatim>\<open>calculate_cost\<close>, \<^verbatim>\<open>update_cost\<close> and \<^verbatim>\<open>update_parent\<close> of the node at \<open>self\<close>.\<close>

definition calculate_cost :: "AStarNode list \<Rightarrow> addr \<Rightarrow> addr option \<Rightarrow> int \<times> rat" where
  "calculate_cost hp self par =
     (let g' = (case par of Some p \<Rightarrow> g (hp ! p) + 1 | None \<Rightarrow> 1);
          f' = of_int g' + h (hp ! self)
      in (g', f'))"

definition update_cost :: "AStarNode list \<Rightarrow> addr \<Rightarrow> AStarNode list" where
  "update_cost hp self =
     (case calculate_cost hp self (parent (hp ! self)) of
        (g', f') \<Rightarrow> hp[self := (hp ! self)\<lparr>g := g', f := f'\<rparr>])"

definition update_parent :: "AStarNode list \<Rightarrow> addr \<Rightarrow> addr option \<Rightarrow> AStarNode list" where
  "update_parent hp self cheaper_parent =
     (case calculate_cost hp self cheaper_parent of
        (_, f') \<Rightarrow>
          if f' < f (hp ! self)
          then update_cost (hp[self := (hp ! self)\<lparr>parent := cheaper_parent\<rparr>]) self
          else hp)"

section \<open>The solver\<close>

text \<open>
  The solver object with the store of node objects beside its attributes.  \<open>cube\<close> is
  the state held by the cube object the solver was built with: \<^verbatim>\<open>get_State\<close> reads it
  and \<^verbatim>\<open>set_State\<close> replaces it.
\<close>

record AStarSolver =
  heap :: "AStarNode list"
  cube :: state
  Q :: "addr list"
  visited_nodes :: "addr list"
  divisor :: int

text \<open>
  The module \<^verbatim>\<open>rub_cube\<close> is not part of the sources at hand.  What the solver needs of
  it is a parameter: the state of an auxiliary cube that was given a state and then
  turned by \<^verbatim>\<open>rotate_90(axis, layer, sense)\<close>, or the exception these calls raise.
\<close>

type_synonym rotate_90 = "string \<Rightarrow> int \<Rightarrow> int \<Rightarrow> state \<Rightarrow> error + state"

text \<open>
  Modelled from the spec: the state of a new cube, \<^verbatim>\<open>rub_cube.RubCube(3).get_State()\<close>,
  whose module is missing.  The spec calls it the canonical solved state, every face
  uniformly one colour; \<open>dict_cubies\<close> and \<open>cube_map\<close> fix the colour of face \<open>k\<close> as \<open>k\<close>.
\<close>

definition solved_state :: state where
  "solved_state = map (\<lambda>k. replicate 3 (replicate 3 k)) [0, 1, 2, 3, 4, 5]"

text \<open>
  \<^verbatim>\<open>is_visited\<close>: \<^verbatim>\<open>node in self.visited_nodes\<close> finds an element that is the node or is
  equal to it, and \<^verbatim>\<open>__eq__\<close> compares the states.
\<close>

definition node_eq :: "AStarNode list \<Rightarrow> addr \<Rightarrow> addr \<Rightarrow> bool" where
  "node_eq hp a b = (a = b \<or> state (hp ! a) = state (hp ! b))"

definition is_visited :: "AStarSolver \<Rightarrow> addr \<Rightarrow> bool" where
  "is_visited s node = list_ex (\<lambda>v. node_eq (heap s) v node) (visited_nodes s)"

text \<open>
  \<^verbatim>\<open>get_best_node\<close>: \<^verbatim>\<open>min\<close> with a key keeps the first node of least \<open>f\<close>;
  \<^verbatim>\<open>list.remove\<close> deletes the first element equal to it and raises ValueError when there
  is none.
\<close>

fun min_f :: "AStarNode list \<Rightarrow> addr \<Rightarrow> addr list \<Rightarrow> addr" where
  "min_f hp best [] = best"
| "min_f hp best (node # rest) =
     (if f (hp ! node) < f (hp ! best) then min_f hp node rest else min_f hp best rest)"

fun list_remove :: "AStarNode list \<Rightarrow> addr \<Rightarrow> addr list \<Rightarrow> error + addr list" where
  "list_remove hp v [] = Inl ValueError"
| "list_remove hp v (x # xs) =
     (if node_eq hp x v then Inr xs
      else (case list_remove hp v xs of Inl e \<Rightarrow> Inl e | Inr ys \<Rightarrow> Inr (x # ys)))"

definition get_best_node :: "AStarSolver \<Rightarrow> error + (addr option \<times> AStarSolver)" where
  "get_best_node s =
     (case Q s of
        [] \<Rightarrow> Inr (None, s)
      | q # qs \<Rightarrow>
          (let best_node = min_f (heap s) q qs in
           case list_remove (heap s) best_node (Q s) of
             Inl e \<Rightarrow> Inl e
           | Inr Q' \<Rightarrow> Inr (Some best_node, s\<lparr>Q := Q'\<rparr>)))"

text \<open>
  \<^verbatim>\<open>get_next_states\<close>: the 18 moves in the order of the three nested loops; each turns
  a copy of the solver's cube and creates a node object.
\<close>

definition moves :: "move list" where
  "moves = concat (map (\<lambda>axis. concat (map (\<lambda>layer. map (\<lambda>sense. (axis, layer, sense)) [-1, 1, 2]) [0, 2]))
                       [''x'', ''y'', ''z''])"

fun next_states_loop ::
  "rotate_90 \<Rightarrow> AStarSolver \<Rightarrow> addr \<Rightarrow> addr list \<Rightarrow> move list \<Rightarrow> error + (addr list \<times> AStarSolver)" where
  "next_states_loop rot s par next_states [] = Inr (next_states, s)"
| "next_states_loop rot s par next_states (m # rest) =
     (case rot (fst m) (fst (snd m)) (snd (snd m)) (cube s) of
        Inl e \<Rightarrow> Inl e
      | Inr aux_state \<Rightarrow>
          (case heuristic aux_state (divisor s) of
             Inl e \<Rightarrow> Inl e
           | Inr hv \<Rightarrow>
               (let next_state = AStarNode_init aux_state False (Some par) (g (heap s ! par) + 1) hv (Some [m])
                in next_states_loop rot (s\<lparr>heap := heap s @ [next_state]\<rparr>) par
                     (next_states @ [length (heap s)]) rest)))"

definition get_next_states :: "rotate_90 \<Rightarrow> AStarSolver \<Rightarrow> addr \<Rightarrow> error + (addr list \<times> AStarSolver)" where
  "get_next_states rot s par = next_states_loop rot s par [] moves"

text \<open>The loop \<^verbatim>\<open>for u in U\<close> of \<^verbatim>\<open>solve\<close>.\<close>

fun expand_loop :: "AStarSolver \<Rightarrow> addr \<Rightarrow> addr list \<Rightarrow> AStarSolver" where
  "expand_loop s x [] = s"
| "expand_loop s x (u # rest) =
     (if \<not> is_visited s u
      then expand_loop (s\<lparr>Q := Q s @ [u], visited_nodes := visited_nodes s @ [u]\<rparr>) x rest
      else expand_loop (s\<lparr>heap := update_parent (heap s) u (Some x)\<rparr>) x rest)"

text \<open>
  The inner loop that walks the parents back to the initial node.  Nothing in the
  code bounds it, so it is a partial function: \<open>None\<close> is a walk that never ends.
\<close>

partial_function (option) walk_parents ::
  "AStarNode list \<Rightarrow> addr \<Rightarrow> addr option \<Rightarrow> addr list \<Rightarrow> addr list option" where
  "walk_parents hp x par rotations =
     (case par of
        None \<Rightarrow> Some rotations
      | Some p \<Rightarrow> walk_parents hp p (parent (hp ! p)) (x # rotations))"

declare walk_parents.simps [code]

text \<open>\<^verbatim>\<open>final_node\<close>, the node that carries the solved state for the comparison.\<close>

definition final_node :: AStarNode where
  "final_node = AStarNode_init solved_state False None 0 0 None"

text \<open>
  One pass through the body of the main loop, on the local variables \<open>ended\<close> and
  \<open>rotations\<close> and the solver.  \<^verbatim>\<open>x.state\<close> on the \<^verbatim>\<open>None\<close> of an empty frontier raises
  AttributeError.
\<close>

type_synonym loop_state = "bool \<times> addr list \<times> AStarSolver"

definition solve_body :: "rotate_90 \<Rightarrow> addr list \<Rightarrow> AStarSolver \<Rightarrow> (error + loop_state) option" where
  "solve_body rot rotations s =
     (case get_best_node s of
        Inl e \<Rightarrow> Some (Inl e)
      | Inr (None, s1) \<Rightarrow> Some (Inl AttributeError)
      | Inr (Some x, s1) \<Rightarrow>
          (let s2 = s1\<lparr>cube := state (heap s1 ! x)\<rparr> in
           if state (heap s2 ! x) = state final_node then
             (case walk_parents (heap s2) x (parent (heap s2 ! x)) rotations of
                None \<Rightarrow> None
              | Some rotations' \<Rightarrow> Some (Inr (True, rotations', s2)))
           else
             (case get_next_states rot s2 x of
                Inl e \<Rightarrow> Some (Inl e)
              | Inr (U, s3) \<Rightarrow> Some (Inr (False, rotations, expand_loop s3 x U)))))"

text \<open>
  The main loop \<^verbatim>\<open>while not ended and len(self.Q) > 0\<close>.  It has no bound either; its
  result is the final value of the local variables and the solver.
\<close>

partial_function (option) solve_loop ::
  "rotate_90 \<Rightarrow> bool \<Rightarrow> addr list \<Rightarrow> AStarSolver \<Rightarrow> (error + loop_state) option" where
  "solve_loop rot ended rotations s =
     (if \<not> ended \<and> length (Q s) > 0 then
        Option.bind (solve_body rot rotations s)
          (\<lambda>r. case r of
                 Inl e \<Rightarrow> Some (Inl e)
               | Inr ls \<Rightarrow> solve_loop rot (fst ls) (fst (snd ls)) (snd (snd ls)))
      else Some (Inr (ended, rotations, s)))"

declare solve_loop.simps [code]

text \<open>The statements of \<^verbatim>\<open>solve\<close> before the loop.\<close>

definition solve_init :: "AStarSolver \<Rightarrow> error + AStarSolver" where
  "solve_init s =
     (case heuristic (cube s) (divisor s) of
        Inl e \<Rightarrow> Inl e
      | Inr hv \<Rightarrow>
          (let initial_node = AStarNode_init (cube s) False None 0 hv (Some [(''x'', 0, 0)]);
               a = length (heap s)
           in Inr (s\<lparr>heap := heap s @ [initial_node],
                     visited_nodes := visited_nodes s @ [a],
                     Q := Q s @ [a]\<rparr>)))"

text \<open>
  \<open>solve_run\<close> is a whole call of \<^verbatim>\<open>solve\<close> with the final value of \<open>ended\<close> kept;
  \<open>solve\<close> is what the caller has afterwards: the list \<open>rotations\<close> that is returned and
  the solver object as the call left it.
\<close>

definition solve_run :: "rotate_90 \<Rightarrow> AStarSolver \<Rightarrow> (error + loop_state) option" where
  "solve_run rot s =
     (case solve_init s of
        Inl e \<Rightarrow> Some (Inl e)
      | Inr s1 \<Rightarrow> solve_loop rot False [] s1)"

definition solve :: "rotate_90 \<Rightarrow> AStarSolver \<Rightarrow> (error + addr list \<times> AStarSolver) option" where
  "solve rot s = map_option (map_sum id snd) (solve_run rot s)"

text \<open>\<^verbatim>\<open>AStarSolver.__init__\<close> with its defaults: empty lists and the divisor 5.\<close>

definition AStarSolver_init :: "AStarNode list \<Rightarrow> state \<Rightarrow> AStarSolver" where
  "AStarSolver_init hp c = \<lparr>heap = hp, cube = c, Q = [], visited_nodes = [], divisor = 5\<rparr>"

section \<open>A model of the missing cube\<close>

text \<open>
  Modelled from the spec: \<^verbatim>\<open>rotate_90\<close> of the missing module \<^verbatim>\<open>rub_cube\<close>.  The spec
  describes 18 moves, 3 axes by the 2 outer layers by 3 senses, each permuting the
  colours of the 54 stickers, the two quarter turns of a layer inverse to each other and
  the half turn its own inverse; a state that is not of length 54 or holds a colour
  outside the six, and a move outside the 18, are rejected.  The permutation of a
  quarter turn of each face is the one that \<open>cube_map\<close> forces: the face's own nine
  stickers turn by a quarter, and the stickers that its eight pieces show on the four
  neighbouring faces follow their pieces.  Entry \<open>i\<close> of a table is the position whose
  colour moves to position \<open>i\<close>, positions counted face by face and row by row.  Which
  axis and layer names a face, and which quarter turn is sense 1, is a choice made here.
  The theorems on the code of the solver hold for every \<open>rotate_90\<close>; this model
  serves to run the solver on concrete cubes, and to state what the spec says of the
  state model.
\<close>

definition quarter_turns :: "nat list list" where
  "quarter_turns =
    [[6, 3, 0, 7, 4, 1, 8, 5, 2, 36, 10, 11, 39, 13, 14, 42, 16, 17, 18, 19, 20, 21, 22, 23, 24, 25, 26, 27, 28, 51, 30, 31, 48, 33, 34, 45, 35, 37, 38, 32, 40, 41, 29, 43, 44, 9, 46, 47, 12, 49, 50, 15, 52, 53],
     [0, 1, 45, 3, 4, 46, 6, 7, 47, 15, 12, 9, 16, 13, 10, 17, 14, 11, 42, 19, 20, 43, 22, 23, 44, 25, 26, 27, 28, 29, 30, 31, 32, 33, 34, 35, 36, 37, 38, 39, 40, 41, 8, 5, 2, 24, 21, 18, 48, 49, 50, 51, 52, 53],
     [0, 1, 2, 3, 4, 5, 6, 7, 8, 9, 10, 47, 12, 13, 50, 15, 16, 53, 24, 21, 18, 25, 22, 19, 26, 23, 20, 44, 28, 29, 41, 31, 32, 38, 34, 35, 36, 37, 11, 39, 40, 14, 42, 43, 17, 45, 46, 33, 48, 49, 30, 51, 52, 27],
     [38, 1, 2, 37, 4, 5, 36, 7, 8, 9, 10, 11, 12, 13, 14, 15, 16, 17, 18, 19, 53, 21, 22, 52, 24, 25, 51, 33, 30, 27, 34, 31, 28, 35, 32, 29, 20, 23, 26, 39, 40, 41, 42, 43, 44, 45, 46, 47, 48, 49, 50, 0, 3, 6],
     [9, 10, 11, 3, 4, 5, 6, 7, 8, 18, 19, 20, 12, 13, 14, 15, 16, 17, 27, 28, 29, 21, 22, 23, 24, 25, 26, 0, 1, 2, 30, 31, 32, 33, 34, 35, 42, 39, 36, 43, 40, 37, 44, 41, 38, 45, 46, 47, 48, 49, 50, 51, 52, 53],
     [0, 1, 2, 3, 4, 5, 33, 34, 35, 9, 10, 11, 12, 13, 14, 6, 7, 8, 18, 19, 20, 21, 22, 23, 15, 16, 17, 27, 28, 29, 30, 31, 32, 24, 25, 26, 36, 37, 38, 39, 40, 41, 42, 43, 44, 51, 48, 45, 52, 49, 46, 53, 50, 47]]"

definition face_index :: "string \<Rightarrow> int \<Rightarrow> nat option" where
  "face_index axis layer =
     (if axis = ''x'' \<and> layer = 0 then Some 0
      else if axis = ''x'' \<and> layer = 2 then Some 2
      else if axis = ''y'' \<and> layer = 0 then Some 1
      else if axis = ''y'' \<and> layer = 2 then Some 3
      else if axis = ''z'' \<and> layer = 0 then Some 4
      else if axis = ''z'' \<and> layer = 2 then Some 5
      else None)"

fun in_threes :: "'a list \<Rightarrow> 'a list list" where
  "in_threes (a # b # c # rest) = [a, b, c] # in_threes rest"
| "in_threes rest = []"

definition quarter_turn :: "nat \<Rightarrow> state \<Rightarrow> state" where
  "quarter_turn k st =
     (let stickers = concat (concat st)
      in in_threes (in_threes (map (\<lambda>i. stickers ! i) (quarter_turns ! k))))"

definition valid_state :: "state \<Rightarrow> bool" where
  "valid_state st =
     (length st = 6 \<and>
      list_all (\<lambda>face. length face = 3 \<and>
                 list_all (\<lambda>row. length row = 3 \<and> list_all (\<lambda>c. 0 \<le> c \<and> c < 6) row) face) st)"

definition rotate_90_model :: rotate_90 where
  "rotate_90_model axis layer sense st =
     (if \<not> valid_state st then Inl InvalidState
      else
        (case face_index axis layer of
           None \<Rightarrow> Inl InvalidMove
         | Some k \<Rightarrow>
             (if sense = 1 then Inr (quarter_turn k st)
              else if sense = 2 then Inr (quarter_turn k (quarter_turn k st))
              else if sense = - 1 then Inr (quarter_turn k (quarter_turn k (quarter_turn k st)))
              else Inl InvalidMove)))"

section \<open>Notions used to state the properties\<close>

text \<open>
  The cost table of a piece as the specification words it: a corner that is oriented
  and positioned costs 0, oriented and mispositioned 1, not oriented 2; an edge that is
  positioned and oriented costs 0, positioned and not oriented 3, mispositioned and
  oriented 1, mispositioned and not oriented 2.
\<close>

definition spec_piece_cost :: "int \<Rightarrow> bool \<Rightarrow> bool \<Rightarrow> int" where
  "spec_piece_cost cubie positioned oriented =
     (if cubie < 8 then
        (if oriented \<and> positioned then 0
         else if oriented \<and> \<not> positioned then 1
         else 2)
      else
        (if positioned \<and> oriented then 0
         else if positioned \<and> \<not> oriented then 3
         else if \<not> positioned \<and> oriented then 1
         else 2))"

text \<open>The two booleans of a piece, as the code computes them for a state.\<close>

definition positioned :: "state \<Rightarrow> int \<Rightarrow> bool" where
  "positioned st cubie = (correct_position (list_of_pairs_of st) cubie = Inr True)"

definition oriented :: "state \<Rightarrow> int \<Rightarrow> bool" where
  "oriented st cubie = (correct_orientation (list_of_pairs_of st) cubie = Inr (Some True))"

text \<open>
  How often a piece is named in \<open>cube_map\<close>, and how often it heads a pair of a list of
  pairs.
\<close>

definition cube_map_count :: "int \<Rightarrow> nat" where
  "cube_map_count cubie = sum_list (map (\<lambda>face. sum_list (map (\<lambda>row. count_list row cubie) face)) cube_map)"

definition pair_count :: "int \<Rightarrow> (int \<times> int) list \<Rightarrow> nat" where
  "pair_count cubie ps = count_list (map fst ps) cubie"

text \<open>
  The states held by the visited index, in its order, and the well-formedness of its
  references: each refers to an object of the store.
\<close>

definition visited_states :: "AStarSolver \<Rightarrow> state list" where
  "visited_states s = map (\<lambda>a. state (heap s ! a)) (visited_nodes s)"

definition references_ok :: "AStarSolver \<Rightarrow> bool" where
  "references_ok s = list_all (\<lambda>a. a < length (heap s)) (visited_nodes s)"

text \<open>
  The values of the local variables and the solver at the head of the main loop, in a
  run that starts from \<open>ls0\<close>: the start itself, and what one more pass of the body
  yields while the loop condition holds.
\<close>

inductive reaches :: "rotate_90 \<Rightarrow> loop_state \<Rightarrow> loop_state \<Rightarrow> bool" for rot :: rotate_90 and ls0 :: loop_state where
  start: "reaches rot ls0 ls0"
| pass: "reaches rot ls0 (False, rotations, s) \<Longrightarrow> Q s \<noteq> [] \<Longrightarrow>
         solve_body rot rotations s = Some (Inr ls') \<Longrightarrow> reaches rot ls0 ls'"

text \<open>
  Cubes for running the solver: the solved cube after the move \<open>(x, 0, 1)\<close> of the
  model, and after the three moves \<open>(x, 0, 2)\<close>, \<open>(x, 2, 2)\<close>, \<open>(y, 0, 2)\<close>; a cube
  of one colour, which no turn changes; a cube whose colours are outside the six; and a
  solver built with one node already in \<^verbatim>\<open>visited_nodes\<close>, for the solved state at
  cost 7, on the cube that is one move away from it.
\<close>

definition scrambled_once :: state where
  "scrambled_once =
     [[[0, 0, 0], [0, 0, 0], [0, 0, 0]], [[4, 1, 1], [4, 1, 1], [4, 1, 1]],
      [[2, 2, 2], [2, 2, 2], [2, 2, 2]], [[3, 3, 5], [3, 3, 5], [3, 3, 5]],
      [[3, 4, 4], [3, 4, 4], [3, 4, 4]], [[1, 5, 5], [1, 5, 5], [1, 5, 5]]]"

definition scrambled_thrice :: state where
  "scrambled_thrice = [[[0, 0, 2], [0, 0, 2], [0, 0, 2]], [[3, 1, 3], [3, 1, 3], [3, 1, 3]],
     [[0, 2, 2], [0, 2, 2], [0, 2, 2]], [[1, 3, 1], [1, 3, 1], [1, 3, 1]],
     [[5, 4, 5], [5, 4, 5], [4, 5, 4]], [[5, 4, 5], [4, 5, 4], [4, 5, 4]]]"

definition monochrome :: state where
  "monochrome = replicate 6 (replicate 3 (replicate 3 0))"


definition relax_input :: AStarSolver where
  "relax_input =
     \<lparr>heap = [AStarNode_init solved_state False None 7 0 None], cube = scrambled_once,
      Q = [], visited_nodes = [0], divisor = 5\<rparr>"

text \<open>
  The first \<open>n\<close> passes of the main loop, or fewer when the loop ends before; it
  serves to run the loop on a concrete cube up to a given pass.
\<close>

fun passes :: "nat \<Rightarrow> rotate_90 \<Rightarrow> loop_state \<Rightarrow> (error + loop_state) option" where
  "passes 0 rot ls = Some (Inr ls)"
| "passes (Suc n) rot ls =
     (if \<not> fst ls \<and> Q (snd (snd ls)) \<noteq> [] then
        (case solve_body rot (fst (snd ls)) (snd (snd ls)) of
           Some (Inr ls') \<Rightarrow> passes n rot ls'
         | other \<Rightarrow> other)
      else Some (Inr ls))"





text \<open>
  The solver that a first call of \<^verbatim>\<open>solve\<close> on a solved cube leaves behind, and the
  one that a second call on that same solver leaves behind.
\<close>

definition after_first_run :: AStarSolver where
  "after_first_run =
     \<lparr>heap = [AStarNode_init solved_state False None 0 0 (Some [(''x'', 0, 0)])],
      cube = solved_state, Q = [], visited_nodes = [0], divisor = 5\<rparr>"

definition after_second_run :: AStarSolver where
  "after_second_run =
     \<lparr>heap = [AStarNode_init solved_state False None 0 0 (Some [(''x'', 0, 0)]),
              AStarNode_init solved_state False None 0 0 (Some [(''x'', 0, 0)])],
      cube = solved_state, Q = [], visited_nodes = [0, 1], divisor = 5\<rparr>"


section \<open>Auxiliary facts\<close>

lemma upto_0_19: "[0..19::int] = [0,1,2,3,4,5,6,7,8,9,10,11,12,13,14,15,16,17,18,19]"
  by (simp add: upto_rec1)

lemma dict_cubies_len:
  assumes "0 \<le> c" "c < 20"
  shows "\<exists>cols. dict_cubies c = Some cols \<and> cube_map_count c \<le> length cols"
proof -
  have "\<forall>c \<in> set [0..19::int]. \<exists>cols. dict_cubies c = Some cols \<and> cube_map_count c \<le> length cols"
    unfolding upto_0_19 by (simp add: dict_cubies_def cube_map_count_def cube_map_def)
  with assms show ?thesis by simp
qed

lemma pair_count_zip: "pair_count c (zip xs ys) \<le> count_list xs c"
  unfolding pair_count_def
proof (induction xs arbitrary: ys)
  case Nil then show ?case by simp
next
  case (Cons x xs) then show ?case by (cases ys) (auto intro: le_SucI)
qed

lemma pair_count_append: "pair_count c (ps @ qs) = pair_count c ps + pair_count c qs"
  by (simp add: pair_count_def)

lemma pair_count_rows:
  "pair_count c (concat (map (\<lambda>row. zip (fst row) (snd row)) (zip cf sf)))
     \<le> sum_list (map (\<lambda>row. count_list row c) cf)"
proof (induction cf arbitrary: sf)
  case Nil then show ?case by (simp add: pair_count_def)
next
  case (Cons r cf)
  show ?case
  proof (cases sf)
    case Nil then show ?thesis by (simp add: pair_count_def)
  next
    case (Cons s sf')
    have "pair_count c (zip r s) \<le> count_list r c" by (rule pair_count_zip)
    moreover note Cons.IH [of sf']
    ultimately show ?thesis using Cons by (simp add: pair_count_append)
  qed
qed

lemma pair_count_faces:
  "pair_count c (concat (map (\<lambda>face. concat (map (\<lambda>row. zip (fst row) (snd row)) (zip (fst face) (snd face)))) (zip cm st)))
     \<le> sum_list (map (\<lambda>face. sum_list (map (\<lambda>row. count_list row c) face)) cm)"
proof (induction cm arbitrary: st)
  case Nil then show ?case by (simp add: pair_count_def)
next
  case (Cons cf cm)
  show ?case
  proof (cases st)
    case Nil then show ?thesis by (simp add: pair_count_def)
  next
    case (Cons sf st')
    have "pair_count c (concat (map (\<lambda>row. zip (fst row) (snd row)) (zip cf sf)))
            \<le> sum_list (map (\<lambda>row. count_list row c) cf)" by (rule pair_count_rows)
    moreover note Cons.IH [of st']
    ultimately show ?thesis using Cons by (simp add: pair_count_append)
  qed
qed

lemma pair_count_list_of_pairs: "pair_count c (list_of_pairs_of st) \<le> cube_map_count c"
  unfolding list_of_pairs_of_def cube_map_count_def by (rule pair_count_faces)

lemma correct_orientation_loop_total:
  "dict_cubies c = Some cols \<Longrightarrow> i + pair_count c ps \<le> length cols \<Longrightarrow>
   \<exists>b. correct_orientation_loop c i ps = Inr b"
proof (induction ps arbitrary: i)
  case Nil then show ?case by auto
next
  case (Cons p ps)
  show ?case
  proof (cases "fst p = c")
    case True
    with Cons.prems have lt: "i < length cols" and le: "(i + 1) + pair_count c ps \<le> length cols"
      by (simp_all add: pair_count_def)
    from Cons.IH [OF Cons.prems(1) le] True lt Cons.prems(1) show ?thesis by auto
  next
    case False
    with Cons.prems have "i + pair_count c ps \<le> length cols" by (simp add: pair_count_def)
    from Cons.IH [OF Cons.prems(1) this] False show ?thesis by auto
  qed
qed

lemma correct_position_loop_total:
  "dict_cubies c = Some cols \<Longrightarrow> \<exists>b. correct_position_loop c boolean ps = Inr b"
  by (induction ps arbitrary: boolean) auto

lemma correct_orientation_total:
  assumes "0 \<le> c" "c < 20"
  shows "\<exists>b. correct_orientation (list_of_pairs_of st) c = Inr (Some b)"
proof -
  from dict_cubies_len [OF assms] obtain cols
    where d: "dict_cubies c = Some cols" and n: "cube_map_count c \<le> length cols" by blast
  have "0 + pair_count c (list_of_pairs_of st) \<le> length cols"
    using pair_count_list_of_pairs [of c st] n by simp
  from correct_orientation_loop_total [OF d this] assms show ?thesis
    by (auto simp: correct_orientation_def)
qed

lemma correct_position_total:
  assumes "0 \<le> c" "c < 20"
  shows "\<exists>b. correct_position (list_of_pairs_of st) c = Inr b"
proof -
  from dict_cubies_len [OF assms] obtain cols where d: "dict_cubies c = Some cols" by blast
  from correct_position_loop_total [OF d] assms show ?thesis
    by (auto simp: correct_position_def)
qed

lemma moves_for_correct_cubie_cost:
  assumes "0 \<le> c" "c < 20"
  shows "moves_for_correct_cubie (list_of_pairs_of st) c
           = Inr (Some (spec_piece_cost c (positioned st c) (oriented st c)))"
proof -
  from correct_position_total [OF assms] obtain bp where p: "correct_position (list_of_pairs_of st) c = Inr bp" by blast
  from correct_orientation_total [OF assms] obtain bo where q: "correct_orientation (list_of_pairs_of st) c = Inr (Some bo)" by blast
  show ?thesis using assms p q
    by (simp add: moves_for_correct_cubie_def spec_piece_cost_def positioned_def oriented_def)
qed

lemma sum_moves_loop_cost:
  "\<forall>c \<in> set cs. 0 \<le> c \<and> c < 20 \<Longrightarrow>
   sum_moves_loop (list_of_pairs_of st) acc cs
     = Inr (acc + sum_list (map (\<lambda>c. spec_piece_cost c (positioned st c) (oriented st c)) cs))"
  by (induction cs arbitrary: acc) (simp_all add: moves_for_correct_cubie_cost)

lemma spec_piece_cost_nonneg: "0 \<le> spec_piece_cost c p q"
  by (simp add: spec_piece_cost_def)

lemma update_parent_at:
  assumes "self < length hp"
  shows "update_parent hp self (Some p) =
     (if of_int (g (hp ! p) + 1) + h (hp ! self) < f (hp ! self)
      then hp[self := (hp ! self)\<lparr>parent := Some p, g := g (hp ! p) + 1,
                                    f := of_int (g (hp ! p) + 1) + h (hp ! self)\<rparr>]
      else hp)"
proof (cases "p = self")
  case True
  with assms show ?thesis
    by (simp add: update_parent_def update_cost_def calculate_cost_def Let_def)
next
  case False
  with assms show ?thesis
    by (simp add: update_parent_def update_cost_def calculate_cost_def Let_def)
qed

lemma update_parent_f_le: "f (update_parent hp self cand ! self) \<le> f (hp ! self)"
proof (cases "self < length hp")
  case True
  then show ?thesis
    by (cases cand) (auto simp: update_parent_def update_cost_def calculate_cost_def Let_def nth_list_update)
next
  case False
  then have "length hp \<le> self" by simp
  then show ?thesis
    by (simp add: update_parent_def update_cost_def calculate_cost_def Let_def list_update_beyond)
qed

lemma update_parent_length: "length (update_parent hp self cand) = length hp"
  by (simp add: update_parent_def update_cost_def calculate_cost_def Let_def)

lemma update_parent_other: "a \<noteq> self \<Longrightarrow> update_parent hp self cand ! a = hp ! a"
  by (simp add: update_parent_def update_cost_def calculate_cost_def Let_def)

lemma update_parent_state: "state (update_parent hp self cand ! a) = state (hp ! a)"
proof (cases "self < length hp")
  case True
  then show ?thesis
    by (cases "a = self") (auto simp: update_parent_def update_cost_def calculate_cost_def Let_def)
next
  case False
  then have "length hp \<le> self" by simp
  then show ?thesis
    by (simp add: update_parent_def update_cost_def calculate_cost_def Let_def list_update_beyond)
qed

lemma update_parent_take: "n \<le> self \<Longrightarrow> take n (update_parent hp self cand) = take n hp"
  by (simp add: update_parent_def update_cost_def calculate_cost_def Let_def)

lemma foldl_update_parent_f_le:
  "f (foldl (\<lambda>hp' cand. update_parent hp' self cand) hp cands ! self) \<le> f (hp ! self)"
proof (induction cands arbitrary: hp)
  case Nil show ?case by simp
next
  case (Cons c cs)
  have "f (foldl (\<lambda>hp' cand. update_parent hp' self cand) (update_parent hp self c) cs ! self)
          \<le> f (update_parent hp self c ! self)" by (rule Cons.IH)
  also have "\<dots> \<le> f (hp ! self)" by (rule update_parent_f_le)
  finally show ?case by simp
qed

lemma state_final_node: "state final_node = solved_state"
  by (simp add: final_node_def AStarNode_init_def)

lemma upt_from_Suc: "[n..<n + Suc k] = n # [Suc n..<Suc n + k]"
  by (simp add: upt_conv_Cons)

lemma next_states_loop_result:
  "next_states_loop rot s par ns ms = Inr (U, s') \<Longrightarrow>
   (\<exists>new. heap s' = heap s @ new \<and> U = ns @ [length (heap s)..<length (heap s) + length new]) \<and>
   cube s' = cube s \<and> Q s' = Q s \<and> visited_nodes s' = visited_nodes s \<and> divisor s' = divisor s"
proof (induction ms arbitrary: s ns)
  case Nil
  then show ?case by simp
next
  case (Cons m ms)
  from Cons.prems obtain aux hv where
    rec: "next_states_loop rot
            (s\<lparr>heap := heap s @ [AStarNode_init aux False (Some par) (g (heap s ! par) + 1) hv (Some [m])]\<rparr>)
            par (ns @ [length (heap s)]) ms = Inr (U, s')"
    by (auto simp: Let_def split: sum.splits)
  let ?node = "AStarNode_init aux False (Some par) (g (heap s ! par) + 1) hv (Some [m])"
  from Cons.IH [OF rec] obtain new where
    hp: "heap s' = (heap s @ [?node]) @ new" and
    U: "U = (ns @ [length (heap s)]) @ [Suc (length (heap s))..<Suc (length (heap s)) + length new]" and
    rest: "cube s' = cube s" "Q s' = Q s" "visited_nodes s' = visited_nodes s" "divisor s' = divisor s"
    by auto
  have "[length (heap s)..<length (heap s) + length (?node # new)]
          = length (heap s) # [Suc (length (heap s))..<Suc (length (heap s)) + length new]"
    using upt_from_Suc [of "length (heap s)" "length new"] by simp
  with U have "U = ns @ [length (heap s)..<length (heap s) + length (?node # new)]" by simp
  moreover from hp have "heap s' = heap s @ (?node # new)" by simp
  ultimately show ?case using rest by blast
qed

lemma get_next_states_result:
  "get_next_states rot s par = Inr (U, s') \<Longrightarrow>
   (\<exists>new. heap s' = heap s @ new \<and> U = [length (heap s)..<length (heap s) + length new]) \<and>
   cube s' = cube s \<and> Q s' = Q s \<and> visited_nodes s' = visited_nodes s \<and> divisor s' = divisor s"
  unfolding get_next_states_def by (drule next_states_loop_result) simp

lemma expand_loop_frame:
  "length (heap (expand_loop s x U)) = length (heap s) \<and>
   cube (expand_loop s x U) = cube s \<and> divisor (expand_loop s x U) = divisor s"
  by (induction U arbitrary: s) (simp_all add: update_parent_length)

lemma expand_loop_take:
  "\<forall>u \<in> set U. n \<le> u \<Longrightarrow> take n (heap (expand_loop s x U)) = take n (heap s)"
  by (induction U arbitrary: s) (simp_all add: update_parent_take)

lemma expand_loop_state: "state (heap (expand_loop s x U) ! a) = state (heap s ! a)"
  by (induction U arbitrary: s) (simp_all add: update_parent_state)

lemma is_visited_iff:
  "is_visited s u \<longleftrightarrow> state (heap s ! u) \<in> set (visited_states s)"
  unfolding is_visited_def visited_states_def node_eq_def list_ex_iff set_map image_iff
  by metis

lemma visited_states_update_parent:
  "visited_states (s\<lparr>heap := update_parent (heap s) u cand\<rparr>) = visited_states s"
  by (simp add: visited_states_def update_parent_state)

lemma expand_loop_distinct:
  "distinct (visited_states s) \<Longrightarrow> distinct (visited_states (expand_loop s x U))"
proof (induction U arbitrary: s)
  case Nil
  then show ?case by simp
next
  case (Cons u U)
  show ?case
  proof (cases "is_visited s u")
    case True
    with Cons.prems Cons.IH [of "s\<lparr>heap := update_parent (heap s) u (Some x)\<rparr>"]
    show ?thesis by (simp add: visited_states_update_parent)
  next
    case False
    then have "state (heap s ! u) \<notin> set (visited_states s)" by (simp add: is_visited_iff)
    with Cons.prems
    have "distinct (visited_states (s\<lparr>Q := Q s @ [u], visited_nodes := visited_nodes s @ [u]\<rparr>))"
      by (simp add: visited_states_def)
    from Cons.IH [OF this] False show ?thesis by simp
  qed
qed

lemma expand_loop_references:
  "references_ok s \<Longrightarrow> \<forall>u \<in> set U. u < length (heap s) \<Longrightarrow> references_ok (expand_loop s x U)"
proof (induction U arbitrary: s)
  case Nil
  then show ?case by simp
next
  case (Cons u U)
  then show ?case
    by (cases "is_visited s u") (auto simp: references_ok_def update_parent_length list_all_iff)
qed

lemma min_f_mem: "min_f hp best rest \<in> set (best # rest)"
  by (induction rest arbitrary: best) (auto split: if_splits)

lemma list_remove_mem: "v \<in> set xs \<Longrightarrow> \<exists>ys. list_remove hp v xs = Inr ys"
  by (induction xs) (auto simp: node_eq_def)

lemma get_best_node_nonempty:
  "Q s \<noteq> [] \<Longrightarrow> \<exists>x Q'. get_best_node s = Inr (Some x, s\<lparr>Q := Q'\<rparr>) \<and> x \<in> set (Q s)"
proof -
  assume "Q s \<noteq> []"
  then obtain q qs where qs: "Q s = q # qs" by (cases "Q s") auto
  have m: "min_f (heap s) q qs \<in> set (Q s)" unfolding qs by (rule min_f_mem)
  from list_remove_mem [OF m] obtain ys where "list_remove (heap s) (min_f (heap s) q qs) (Q s) = Inr ys" ..
  with qs m show ?thesis by (auto simp: get_best_node_def)
qed

lemma solve_body_cases:
  assumes "solve_body rot rotations s = Some (Inr (ended', rotations', s'))"
  obtains (solved) x Q' where "get_best_node s = Inr (Some x, s\<lparr>Q := Q'\<rparr>)"
      "state (heap s ! x) = solved_state" "ended'"
      "s' = s\<lparr>Q := Q', cube := state (heap s ! x)\<rparr>"
      "walk_parents (heap s) x (parent (heap s ! x)) rotations = Some rotations'"
  | (expand) x Q' U s3 where "get_best_node s = Inr (Some x, s\<lparr>Q := Q'\<rparr>)"
      "state (heap s ! x) \<noteq> solved_state" "\<not> ended'" "rotations' = rotations"
      "get_next_states rot (s\<lparr>Q := Q', cube := state (heap s ! x)\<rparr>) x = Inr (U, s3)"
      "s' = expand_loop s3 x U"
proof -
  have "Q s \<noteq> []"
  proof
    assume "Q s = []"
    then have "solve_body rot rotations s = Some (Inl AttributeError)"
      by (simp add: solve_body_def get_best_node_def)
    with assms show False by simp
  qed
  from get_best_node_nonempty [OF this] obtain x Q'
    where b: "get_best_node s = Inr (Some x, s\<lparr>Q := Q'\<rparr>)" by blast
  show thesis
  proof (cases "state (heap s ! x) = solved_state")
    case True
    with assms b show thesis
      by (intro solved [of x Q'])
         (auto simp: solve_body_def Let_def state_final_node split: option.splits)
  next
    case False
    with assms b obtain U s3 where
      n: "get_next_states rot (s\<lparr>Q := Q', cube := state (heap s ! x)\<rparr>) x = Inr (U, s3)"
      and r: "\<not> ended'" "rotations' = rotations" "s' = expand_loop s3 x U"
      by (auto simp: solve_body_def Let_def state_final_node split: sum.splits)
    from b False r(1) r(2) n r(3) show thesis by (rule expand)
  qed
qed

lemma solve_loop_exit:
  "ended \<or> Q s = [] \<Longrightarrow> solve_loop rot ended rotations s = Some (Inr (ended, rotations, s))"
  by (subst solve_loop.simps) auto

lemma solve_loop_pass:
  "\<not> ended \<Longrightarrow> Q s \<noteq> [] \<Longrightarrow> solve_body rot rotations s = Some (Inr (ended', rotations', s')) \<Longrightarrow>
   solve_loop rot ended rotations s = solve_loop rot ended' rotations' s'"
  by (subst solve_loop.simps) simp

lemma reaches_solve_loop:
  "reaches rot ls0 ls \<Longrightarrow>
   solve_loop rot (fst ls0) (fst (snd ls0)) (snd (snd ls0)) = solve_loop rot (fst ls) (fst (snd ls)) (snd (snd ls))"
proof (induction rule: reaches.induct)
  case start
  show ?case by simp
next
  case (pass rotations s ls')
  obtain e' r' s' where ls': "ls' = (e', r', s')" by (cases ls') auto
  from pass.hyps(2,3) have "solve_loop rot False rotations s = solve_loop rot e' r' s'"
    unfolding ls' by (intro solve_loop_pass) simp_all
  with pass.IH show ?case by (simp add: ls')
qed

lemma reaches_front:
  assumes "reaches rot ls1 ls'" and "Q s \<noteq> []" and "solve_body rot rotations s = Some (Inr ls1)"
  shows "reaches rot (False, rotations, s) ls'"
  using assms(1)
proof (induction rule: reaches.induct)
  case start
  from reaches.start assms(2,3) show ?case by (rule reaches.pass)
next
  case (pass rotations2 s2 ls2)
  from pass.IH pass.hyps(2,3) show ?case by (rule reaches.pass)
qed

lemma solve_loop_result:
  assumes "solve_loop rot ended rotations s = Some res"
  shows "\<forall>ls. res = Inr ls \<longrightarrow> reaches rot (ended, rotations, s) ls \<and> (fst ls \<or> Q (snd (snd ls)) = [])"
proof (rule solve_loop.raw_induct
    [where P = "\<lambda>rot ended rotations s res.
        \<forall>ls. res = Inr ls \<longrightarrow> reaches rot (ended, rotations, s) ls \<and> (fst ls \<or> Q (snd (snd ls)) = [])",
      OF _ assms], goal_cases)
  case (1 loop rot ended rotations s res)
  show ?case
  proof (cases "\<not> ended \<and> 0 < length (Q s)")
    case False
    with 1(2) have res: "res = Inr (ended, rotations, s)" by (auto split: if_splits)
    from False have "ended \<or> Q s = []" by auto
    with res show ?thesis by (simp add: reaches.start)
  next
    case True
    with 1(2) obtain r where b: "solve_body rot rotations s = Some r"
      and c: "(case r of Inl e \<Rightarrow> Some (Inl e)
               | Inr ls \<Rightarrow> loop rot (fst ls) (fst (snd ls)) (snd (snd ls))) = Some res"
      by (auto simp: bind_eq_Some_conv)
    show ?thesis
    proof (cases r)
      case (Inl e)
      with c show ?thesis by auto
    next
      case (Inr ls1)
      with c have "loop rot (fst ls1) (fst (snd ls1)) (snd (snd ls1)) = Some res" by simp
      from 1(1) [OF this]
      have ih: "\<forall>ls. res = Inr ls \<longrightarrow> reaches rot (fst ls1, fst (snd ls1), snd (snd ls1)) ls
                  \<and> (fst ls \<or> Q (snd (snd ls)) = [])" .
      show ?thesis
      proof (intro allI impI)
        fix ls assume "res = Inr ls"
        with ih have r1: "reaches rot ls1 ls" and fin: "fst ls \<or> Q (snd (snd ls)) = []" by simp_all
        from True have "Q s \<noteq> []" "ended = False" by auto
        with reaches_front [OF r1 _ b [unfolded Inr]] fin
        show "reaches rot (ended, rotations, s) ls \<and> (fst ls \<or> Q (snd (snd ls)) = [])" by simp
      qed
    qed
  qed
qed

lemma solve_run_result:
  assumes "solve_run rot s0 = Some (Inr ls)"
  obtains s1 where "solve_init s0 = Inr s1" "reaches rot (False, [], s1) ls"
    "fst ls \<or> Q (snd (snd ls)) = []"
proof -
  from assms obtain s1 where i: "solve_init s0 = Inr s1" and l: "solve_loop rot False [] s1 = Some (Inr ls)"
    by (auto simp: solve_run_def split: sum.splits)
  from solve_loop_result [OF l] have "reaches rot (False, [], s1) ls" "fst ls \<or> Q (snd (snd ls)) = []"
    by simp_all
  with i show thesis by (rule that)
qed

lemma heuristic_value:
  assumes "d \<noteq> 0"
  shows "heuristic st d =
           Inr (of_int (\<Sum>cubie\<leftarrow>[0..19]. spec_piece_cost cubie (positioned st cubie) (oriented st cubie))
                / of_int d)"
proof -
  have "\<forall>c \<in> set [0..19::int]. 0 \<le> c \<and> c < 20" by simp
  from sum_moves_loop_cost [OF this, of st 0] assms show ?thesis
    by (simp add: heuristic_def)
qed


lemma solve_init_cases:
  assumes "solve_init s = Inr s1"
  obtains hv where "heuristic (cube s) (divisor s) = Inr hv"
    "s1 = s\<lparr>heap := heap s @ [AStarNode_init (cube s) False None 0 hv (Some [(''x'', 0, 0)])],
            visited_nodes := visited_nodes s @ [length (heap s)],
            Q := Q s @ [length (heap s)]\<rparr>"
  using assms by (auto simp: solve_init_def Let_def split: sum.splits)

lemma state_AStarNode_init [simp]: "state (AStarNode_init st vis par g0 h0 rot) = st"
  by (simp add: AStarNode_init_def)

lemma visited_states_grow:
  assumes "references_ok s" and "heap s' = heap s @ new" and "visited_nodes s' = visited_nodes s"
  shows "visited_states s' = visited_states s"
  using assms by (auto simp: visited_states_def references_ok_def list_all_iff nth_append)

lemma solve_init_inv:
  assumes "references_ok s0" and "distinct (visited_states s0)"
    and "cube s0 \<notin> set (visited_states s0)" and "solve_init s0 = Inr s1"
  shows "references_ok s1 \<and> distinct (visited_states s1)"
proof -
  from assms(4) obtain hv where
    s1: "s1 = s0\<lparr>heap := heap s0 @ [AStarNode_init (cube s0) False None 0 hv (Some [(''x'', 0, 0)])],
            visited_nodes := visited_nodes s0 @ [length (heap s0)],
            Q := Q s0 @ [length (heap s0)]\<rparr>"
    by (rule solve_init_cases)
  have old: "map (\<lambda>a. state (heap s1 ! a)) (visited_nodes s0) = visited_states s0"
    using assms(1) unfolding s1 by (auto simp: visited_states_def references_ok_def list_all_iff nth_append)
  have "visited_states s1 = visited_states s0 @ [cube s0]"
    using old unfolding visited_states_def by (simp add: s1)
  moreover have "references_ok s1"
    using assms(1) unfolding s1 by (auto simp: references_ok_def list_all_iff)
  ultimately show ?thesis using assms(2,3) by simp
qed

lemma solve_body_inv:
  assumes "references_ok s" and "distinct (visited_states s)"
    and "solve_body rot rotations s = Some (Inr (ended', rotations', s'))"
  shows "references_ok s' \<and> distinct (visited_states s')"
  using assms(3)
proof (cases rule: solve_body_cases)
  case (solved x Q')
  with assms(1,2) show ?thesis by (simp add: references_ok_def visited_states_def)
next
  case (expand x Q' U s3)
  let ?s2 = "s\<lparr>Q := Q', cube := state (heap s ! x)\<rparr>"
  from get_next_states_result [OF expand(5)] obtain new where
    hp: "heap s3 = heap ?s2 @ new" and U: "U = [length (heap ?s2)..<length (heap ?s2) + length new]"
    and vn: "visited_nodes s3 = visited_nodes ?s2" by auto
  from assms(1) have r2: "references_ok ?s2" by (simp add: references_ok_def)
  from visited_states_grow [OF r2 hp vn] have "visited_states s3 = visited_states s"
    by (simp add: visited_states_def)
  with assms(2) have d3: "distinct (visited_states s3)" by simp
  from r2 hp vn have r3: "references_ok s3" by (auto simp: references_ok_def list_all_iff)
  from U hp have "\<forall>u \<in> set U. u < length (heap s3)" by simp
  from expand_loop_references [OF r3 this] expand_loop_distinct [OF d3] expand(6)
  show ?thesis by simp
qed

lemma reaches_inv:
  assumes "reaches rot ls0 ls" and "references_ok (snd (snd ls0))" and "distinct (visited_states (snd (snd ls0)))"
  shows "references_ok (snd (snd ls)) \<and> distinct (visited_states (snd (snd ls)))"
  using assms
proof (induction rule: reaches.induct)
  case start
  then show ?case by simp
next
  case (pass rotations s ls')
  obtain e' r' s' where ls': "ls' = (e', r', s')" by (cases ls') auto
  from pass.IH pass.prems have "references_ok s" "distinct (visited_states s)" by simp_all
  from solve_body_inv [OF this pass.hyps(3) [unfolded ls']] show ?case by (simp add: ls')
qed

lemma solve_body_heap:
  assumes "solve_body rot rotations s = Some (Inr (ended', rotations', s'))"
  shows "take (length (heap s)) (heap s') = heap s"
  using assms
proof (cases rule: solve_body_cases)
  case (solved x Q')
  then show ?thesis by simp
next
  case (expand x Q' U s3)
  let ?s2 = "s\<lparr>Q := Q', cube := state (heap s ! x)\<rparr>"
  from get_next_states_result [OF expand(5)] obtain new where
    hp: "heap s3 = heap ?s2 @ new" and U: "U = [length (heap ?s2)..<length (heap ?s2) + length new]"
    by auto
  from U have "\<forall>u \<in> set U. length (heap s) \<le> u" by simp
  from expand_loop_take [OF this, of s3 x] hp expand(6) show ?thesis by simp
qed

lemma solve_body_cube:
  assumes "solve_body rot rotations s = Some (Inr (ended', rotations', s'))"
  shows "\<exists>x s1. get_best_node s = Inr (Some x, s1) \<and> cube s' = state (heap s ! x) \<and>
           (ended' \<longrightarrow> cube s' = solved_state)"
  using assms
proof (cases rule: solve_body_cases)
  case (solved x Q')
  then show ?thesis by auto
next
  case (expand x Q' U s3)
  from get_next_states_result [OF expand(5)] have "cube s3 = state (heap s ! x)" by simp
  with expand show ?thesis by (auto simp: expand_loop_frame)
qed

lemma solve_body_rotations:
  assumes "solve_body rot rotations s = Some (Inr (ended', rotations', s'))" and "\<not> ended'"
  shows "rotations' = rotations"
  using assms by (cases rule: solve_body_cases) simp_all

lemma reaches_cube:
  assumes "reaches rot ls0 ls" and "\<not> fst ls0"
  shows "fst ls \<longrightarrow> cube (snd (snd ls)) = solved_state"
  using assms
proof (induction rule: reaches.induct)
  case start
  then show ?case by simp
next
  case (pass rotations s ls')
  obtain e' r' s' where ls': "ls' = (e', r', s')" by (cases ls') auto
  from solve_body_cube [OF pass.hyps(3) [unfolded ls']] show ?case by (auto simp: ls')
qed

lemma reaches_rotations:
  assumes "reaches rot ls0 ls" and "\<not> fst ls0"
  shows "\<not> fst ls \<longrightarrow> fst (snd ls) = fst (snd ls0)"
  using assms
proof (induction rule: reaches.induct)
  case start
  then show ?case by simp
next
  case (pass rotations s ls')
  obtain e' r' s' where ls': "ls' = (e', r', s')" by (cases ls') auto
  from solve_body_rotations [OF pass.hyps(3) [unfolded ls']] pass.IH pass.prems
  show ?case by (auto simp: ls')
qed

lemma heuristic_solved: "heuristic solved_state 5 = Inr 0"
  by code_simp

lemma solve_run_solved:
  "solve_run rot (AStarSolver_init hp solved_state) =
     Some (Inr (True, [],
       \<lparr>heap = hp @ [AStarNode_init solved_state False None 0 0 (Some [(''x'', 0, 0)])],
        cube = solved_state, Q = [], visited_nodes = [length hp], divisor = 5\<rparr>))"
proof -
  let ?root = "AStarNode_init solved_state False None 0 0 (Some [(''x'', 0, 0)])"
  let ?s1 = "\<lparr>heap = hp @ [?root], cube = solved_state, Q = [length hp],
              visited_nodes = [length hp], divisor = 5\<rparr>"
  let ?s2 = "\<lparr>heap = hp @ [?root], cube = solved_state, Q = [],
              visited_nodes = [length hp], divisor = 5\<rparr>"
  have init: "solve_init (AStarSolver_init hp solved_state) = Inr ?s1"
    by (simp add: solve_init_def AStarSolver_init_def heuristic_solved Let_def)
  have best: "get_best_node ?s1 = Inr (Some (length hp), ?s2)"
    by (simp add: get_best_node_def node_eq_def Let_def)
  have walk: "walk_parents (hp @ [?root]) (length hp) None [] = Some []"
    by (subst walk_parents.simps) simp
  have par: "parent ?root = None" by (simp add: AStarNode_init_def)
  have body: "solve_body rot [] ?s1 = Some (Inr (True, [], ?s2))"
    by (simp add: solve_body_def best Let_def state_final_node walk par)
  have "solve_loop rot False [] ?s1 = solve_loop rot True [] ?s2"
    by (rule solve_loop_pass [OF _ _ body]) simp_all
  also have "\<dots> = Some (Inr (True, [], ?s2))"
    by (rule solve_loop_exit) simp
  finally show ?thesis by (simp add: solve_run_def init)
qed

lemma run_scrambled_once:
  "(case solve_run rotate_90_model (AStarSolver_init [] scrambled_once) of
      Some (Inr (e, r, s)) \<Rightarrow> e \<and> r = [1] \<and> length (visited_nodes s) = 19 \<and> cube s = solved_state
    | _ \<Rightarrow> False)"
  by code_simp

lemma run_monochrome:
  "(case solve_run rotate_90_model (AStarSolver_init [] monochrome) of
      Some (Inr (e, r, s)) \<Rightarrow> \<not> e \<and> r = [] \<and> visited_nodes s = [0] \<and> cube s = monochrome
    | _ \<Rightarrow> False)"
  by code_simp

lemma pass_relax_input:
  "(case solve_init relax_input of
      Inr s1 \<Rightarrow>
        (case solve_body rotate_90_model [] s1 of
           Some (Inr (e, r, s')) \<Rightarrow>
             \<not> e \<and> state (heap s' ! 2) = state (heap s' ! 0) \<and> parent (heap s' ! 2) = Some 1 \<and>
             2 \<notin> set (visited_nodes s') \<and> 0 \<in> set (visited_nodes s') \<and>
             snd (calculate_cost (heap s') 0 (Some 1)) = 1 \<and> f (heap s1 ! 0) = 7
         | _ \<Rightarrow> False)
    | _ \<Rightarrow> False)"
  by code_simp

lemma dict_cubies_length:
  assumes "0 \<le> c" "c < 20"
  shows "\<exists>cols. dict_cubies c = Some cols \<and> length cols = (if c < 8 then 3 else 2)"
proof -
  have "\<forall>c \<in> set [0..19::int]. \<exists>cols. dict_cubies c = Some cols \<and> length cols = (if c < 8 then 3 else 2)"
    unfolding upto_0_19 by (simp add: dict_cubies_def)
  with assms show ?thesis by simp
qed

lemma run_result_cases:
  assumes "(case run of Some (Inr (e, r, s)) \<Rightarrow> P e r s | _ \<Rightarrow> False)"
  obtains e r s where "run = Some (Inr (e, r, s))" "P e r s"
proof (cases run)
  case None
  with assms show thesis by simp
next
  case (Some res)
  show thesis
  proof (cases res)
    case (Inl err)
    with Some assms show thesis by simp
  next
    case (Inr ls)
    obtain e r s where "ls = (e, r, s)" by (cases ls) auto
    with Some Inr assms that show thesis by simp
  qed
qed

lemma pass_scrambled_thrice:
  "(case solve_init (AStarSolver_init [] scrambled_thrice) of
      Inr s1 \<Rightarrow>
        (case passes 3 rotate_90_model (False, [], s1) of
           Some (Inr (e3, r3, s3)) \<Rightarrow>
             (case solve_body rotate_90_model r3 s3 of
                Some (Inr (e4, r4, s4)) \<Rightarrow>
                  \<not> e3 \<and> \<not> e4 \<and> 38 \<in> set (visited_nodes s4) \<and> 55 \<notin> set (visited_nodes s4) \<and>
                  state (heap s4 ! 55) = state (heap s4 ! 38) \<and> parent (heap s4 ! 55) = Some 6 \<and>
                  f (heap s4 ! 55) = 26 / 5 \<and> f (heap s3 ! 38) = 31 / 5 \<and>
                  parent (heap s3 ! 38) = Some 24 \<and> length (heap s3) = 55
              | _ \<Rightarrow> False)
         | _ \<Rightarrow> False)
    | _ \<Rightarrow> False)"
  by code_simp

lemma passes_reaches:
  "passes n rot ls = Some (Inr ls') \<Longrightarrow> reaches rot ls ls'"
proof (induction n arbitrary: ls)
  case 0
  then show ?case by (simp add: reaches.start)
next
  case (Suc n)
  obtain e r s where ls: "ls = (e, r, s)" by (cases ls) auto
  show ?case
  proof (cases "\<not> e \<and> Q s \<noteq> []")
    case False
    with Suc.prems ls show ?thesis by (auto simp: reaches.start)
  next
    case True
    with Suc.prems ls obtain ls1 where
      b: "solve_body rot r s = Some (Inr ls1)" and p: "passes n rot ls1 = Some (Inr ls')"
      by (auto split: option.splits sum.splits)
    from reaches_front [OF Suc.IH [OF p] _ b] True ls show ?thesis by simp
  qed
qed























section \<open>The claims\<close>

text \<open>
  Claim C1 asks that, when a successor's state is already in the visited index, the
  node stored there be relaxed in place: parent rebound, \<open>g\<close> and \<open>f\<close> lowered, whenever
  the path through the node being expanded is cheaper.  The code does not do that.  In
  that branch the loop calls \<^verbatim>\<open>update_parent\<close> on the candidate \<open>u\<close> it has just created,
  so a pass through the body of the main loop changes no node object that existed before
  it: the store after the pass begins with the store before it, and every node of the
  visited index and of the frontier keeps its parent, \<open>g\<close> and \<open>f\<close>, however cheap the
  newly offered path.  Two runs on the model cube show it.  In the first the solver is
  built with a node for the solved state at cost 7 in its visited index; expanding the
  initial node offers that state at cost 1, and the stored node is left as it was.  The
  second is an ordinary run, on the cube scrambled by three half turns: the fourth pass
  expands node 6 and offers, as candidate 55, the state of the stored node 38 with an
  \<open>f\<close> of 26/5 against the stored 31/5; node 38 keeps its parent 24 and its costs.
\<close>

theorem stored_nodes_not_relaxed:
  assumes "solve_body rot rotations s = Some (Inr (ended', rotations', s'))"
  shows "take (length (heap s)) (heap s') = heap s \<and> (\<forall>v < length (heap s). heap s' ! v = heap s ! v)"
proof -
  have t: "take (length (heap s)) (heap s') = heap s" using assms by (rule solve_body_heap)
  have "\<forall>v < length (heap s). heap s' ! v = heap s ! v"
  proof (intro allI impI)
    fix v assume "v < length (heap s)"
    then have "take (length (heap s)) (heap s') ! v = heap s' ! v" by simp
    with t show "heap s' ! v = heap s ! v" by simp
  qed
  with t show ?thesis by simp
qed

theorem stored_nodes_not_relaxed_witness:
  "(\<exists>s1 s'. solve_init relax_input = Inr s1 \<and>
     solve_body rotate_90_model [] s1 = Some (Inr (False, [], s')) \<and>
     0 \<in> set (visited_nodes s') \<and> state (heap s' ! 2) = state (heap s' ! 0) \<and>
     parent (heap s' ! 2) = Some 1 \<and> 2 \<notin> set (visited_nodes s') \<and>
     snd (calculate_cost (heap s') 0 (Some 1)) < f (heap s' ! 0) \<and>
     heap s' ! 0 = AStarNode_init solved_state False None 7 0 None) \<and>
   (\<exists>s1 s3 s4. solve_init (AStarSolver_init [] scrambled_thrice) = Inr s1 \<and>
     reaches rotate_90_model (False, [], s1) (False, [], s3) \<and>
     solve_body rotate_90_model [] s3 = Some (Inr (False, [], s4)) \<and>
     38 \<in> set (visited_nodes s4) \<and> 55 \<notin> set (visited_nodes s4) \<and>
     state (heap s4 ! 55) = state (heap s4 ! 38) \<and> parent (heap s4 ! 55) = Some 6 \<and>
     f (heap s4 ! 55) < f (heap s4 ! 38) \<and> parent (heap s4 ! 38) = Some 24)"
proof (intro conjI)
  from pass_relax_input obtain s1 where
    i: "solve_init relax_input = Inr s1" and
    c1: "(case solve_body rotate_90_model [] s1 of
           Some (Inr (e, r, s')) \<Rightarrow>
             \<not> e \<and> state (heap s' ! 2) = state (heap s' ! 0) \<and> parent (heap s' ! 2) = Some 1 \<and>
             2 \<notin> set (visited_nodes s') \<and> 0 \<in> set (visited_nodes s') \<and>
             snd (calculate_cost (heap s') 0 (Some 1)) = 1 \<and> f (heap s1 ! 0) = 7
         | _ \<Rightarrow> False)"
    by (cases "solve_init relax_input") auto
  from c1 obtain e r s' where
    b0: "solve_body rotate_90_model [] s1 = Some (Inr (e, r, s'))"
    and p0: "\<not> e \<and> state (heap s' ! 2) = state (heap s' ! 0) \<and> parent (heap s' ! 2) = Some 1 \<and>
             2 \<notin> set (visited_nodes s') \<and> 0 \<in> set (visited_nodes s') \<and>
             snd (calculate_cost (heap s') 0 (Some 1)) = 1 \<and> f (heap s1 ! 0) = 7"
    by (rule run_result_cases)
  from p0 have e: "\<not> e" and
    p: "state (heap s' ! 2) = state (heap s' ! 0)" "parent (heap s' ! 2) = Some 1"
       "2 \<notin> set (visited_nodes s')" "0 \<in> set (visited_nodes s')"
       "snd (calculate_cost (heap s') 0 (Some 1)) = 1" "f (heap s1 ! 0) = 7"
    by simp_all
  from solve_body_rotations [OF b0 e] e b0
  have b: "solve_body rotate_90_model [] s1 = Some (Inr (False, [], s'))" by simp
  from i have h1: "heap s1 ! 0 = AStarNode_init solved_state False None 7 0 None" "0 < length (heap s1)"
    by (auto simp: solve_init_def relax_input_def Let_def split: sum.splits)
  from stored_nodes_not_relaxed [OF b] h1 have "heap s' ! 0 = heap s1 ! 0" by simp
  with i b p h1 show "\<exists>s1 s'. solve_init relax_input = Inr s1 \<and>
     solve_body rotate_90_model [] s1 = Some (Inr (False, [], s')) \<and>
     0 \<in> set (visited_nodes s') \<and> state (heap s' ! 2) = state (heap s' ! 0) \<and>
     parent (heap s' ! 2) = Some 1 \<and> 2 \<notin> set (visited_nodes s') \<and>
     snd (calculate_cost (heap s') 0 (Some 1)) < f (heap s' ! 0) \<and>
     heap s' ! 0 = AStarNode_init solved_state False None 7 0 None" by auto
next
  let ?s0 = "AStarSolver_init [] scrambled_thrice"
  from pass_scrambled_thrice obtain s1 where
    i: "solve_init ?s0 = Inr s1" and
    c1: "(case passes 3 rotate_90_model (False, [], s1) of
           Some (Inr (e3, r3, s3)) \<Rightarrow>
             (case solve_body rotate_90_model r3 s3 of
                Some (Inr (e4, r4, s4)) \<Rightarrow>
                  \<not> e3 \<and> \<not> e4 \<and> 38 \<in> set (visited_nodes s4) \<and> 55 \<notin> set (visited_nodes s4) \<and>
                  state (heap s4 ! 55) = state (heap s4 ! 38) \<and> parent (heap s4 ! 55) = Some 6 \<and>
                  f (heap s4 ! 55) = 26 / 5 \<and> f (heap s3 ! 38) = 31 / 5 \<and>
                  parent (heap s3 ! 38) = Some 24 \<and> length (heap s3) = 55
              | _ \<Rightarrow> False)
         | _ \<Rightarrow> False)"
    by (cases "solve_init ?s0") auto
  from c1 obtain e3 r3 s3 where
    p3: "passes 3 rotate_90_model (False, [], s1) = Some (Inr (e3, r3, s3))" and
    c2: "(case solve_body rotate_90_model r3 s3 of
                Some (Inr (e4, r4, s4)) \<Rightarrow>
                  \<not> e3 \<and> \<not> e4 \<and> 38 \<in> set (visited_nodes s4) \<and> 55 \<notin> set (visited_nodes s4) \<and>
                  state (heap s4 ! 55) = state (heap s4 ! 38) \<and> parent (heap s4 ! 55) = Some 6 \<and>
                  f (heap s4 ! 55) = 26 / 5 \<and> f (heap s3 ! 38) = 31 / 5 \<and>
                  parent (heap s3 ! 38) = Some 24 \<and> length (heap s3) = 55
              | _ \<Rightarrow> False)"
    by (rule run_result_cases)
  from c2 obtain e4 r4 s4 where
    b0: "solve_body rotate_90_model r3 s3 = Some (Inr (e4, r4, s4))" and
    q: "\<not> e3 \<and> \<not> e4 \<and> 38 \<in> set (visited_nodes s4) \<and> 55 \<notin> set (visited_nodes s4) \<and>
        state (heap s4 ! 55) = state (heap s4 ! 38) \<and> parent (heap s4 ! 55) = Some 6 \<and>
        f (heap s4 ! 55) = 26 / 5 \<and> f (heap s3 ! 38) = 31 / 5 \<and>
        parent (heap s3 ! 38) = Some 24 \<and> length (heap s3) = 55"
    by (rule run_result_cases)
  from passes_reaches [OF p3] have re: "reaches rotate_90_model (False, [], s1) (e3, r3, s3)" .
  from reaches_rotations [OF re] q have r3: "r3 = []" by simp
  from q have e3: "e3 = False" and e4: "\<not> e4" by simp_all
  from solve_body_rotations [OF b0 e4] r3 have r4: "r4 = []" by simp
  from b0 e4 r3 r4 have b: "solve_body rotate_90_model [] s3 = Some (Inr (False, [], s4))" by simp
  from stored_nodes_not_relaxed [OF b] q have same: "heap s4 ! 38 = heap s3 ! 38" by simp
  from re e3 r3 have re': "reaches rotate_90_model (False, [], s1) (False, [], s3)" by simp
  from q same have "f (heap s4 ! 55) < f (heap s4 ! 38)" "parent (heap s4 ! 38) = Some 24" by simp_all
  with i re' b q show "\<exists>s1 s3 s4. solve_init ?s0 = Inr s1 \<and>
     reaches rotate_90_model (False, [], s1) (False, [], s3) \<and>
     solve_body rotate_90_model [] s3 = Some (Inr (False, [], s4)) \<and>
     38 \<in> set (visited_nodes s4) \<and> 55 \<notin> set (visited_nodes s4) \<and>
     state (heap s4 ! 55) = state (heap s4 ! 38) \<and> parent (heap s4 ! 55) = Some 6 \<and>
     f (heap s4 ! 55) < f (heap s4 ! 38) \<and> parent (heap s4 ! 38) = Some 24" by blast
qed

text \<open>
  Claim C2: for every state and every positive divisor, \<^verbatim>\<open>heuristic\<close> returns the sum
  over the pieces 0 to 19 of the cost that the table of the specification gives for the
  piece's two booleans, divided by the divisor.  (The quotient is the exact rational;
  Python returns the float nearest to it.)
\<close>

theorem heuristic_is_scaled_cost_sum:
  assumes "0 < d"
  shows "heuristic st d =
           Inr (of_int (\<Sum>cubie\<leftarrow>[0..19]. spec_piece_cost cubie (positioned st cubie) (oriented st cubie))
                / of_int d)"
  using assms by (intro heuristic_value) simp

theorem heuristic_is_scaled_cost_sum_witness:
  "(0::int) < 5 \<and>
   heuristic scrambled_once 5 =
     Inr (of_int (\<Sum>cubie\<leftarrow>[0..19]. spec_piece_cost cubie (positioned scrambled_once cubie)
                                       (oriented scrambled_once cubie)) / of_int 5) \<and>
   heuristic scrambled_once 5 = Inr (8 / 5)"
proof -
  have a: "(0::int) < 5" by simp
  have b: "heuristic scrambled_once 5 = Inr (8 / 5)" by code_simp
  from heuristic_is_scaled_cost_sum [OF a, of scrambled_once] a b show ?thesis by simp
qed

text \<open>
  Claim C3: with the default divisor 5 the heuristic of every state is a number that is
  not negative, and the heuristic of the solved state is 0.  It holds for states of any
  shape and colours, hence for the valid ones.
\<close>

theorem heuristic_nonnegative_and_zero_at_goal:
  "(\<exists>r. heuristic S 5 = Inr r \<and> 0 \<le> r) \<and> heuristic solved_state 5 = Inr 0"
proof -
  let ?sum = "\<Sum>cubie\<leftarrow>[0..19]. spec_piece_cost cubie (positioned S cubie) (oriented S cubie)"
  have "0 \<le> ?sum"
    by (rule sum_list_nonneg) (auto simp: spec_piece_cost_nonneg)
  then have nn: "(0::rat) \<le> of_int ?sum / of_int 5" by simp
  have hv: "heuristic S 5 = Inr (of_int ?sum / of_int 5)" by (rule heuristic_value) simp
  from hv nn have "\<exists>r. heuristic S 5 = Inr r \<and> 0 \<le> r" by blast
  with heuristic_solved show ?thesis by simp
qed

theorem heuristic_nonnegative_and_zero_at_goal_witness:
  "heuristic scrambled_once 5 = Inr (8 / 5) \<and> (0::rat) \<le> 8 / 5 \<and> heuristic solved_state 5 = Inr 0"
proof -
  have v: "heuristic scrambled_once 5 = Inr (8 / 5)" by code_simp
  from heuristic_nonnegative_and_zero_at_goal [of scrambled_once] v show ?thesis by auto
qed

text \<open>
  Claim C4: \<^verbatim>\<open>solve\<close> on a solver built with the defaults around a solved cube returns
  the empty list, and the visited index then holds exactly one node.  It holds for every
  \<^verbatim>\<open>rotate_90\<close>, which is never called, and whatever objects exist already.
\<close>

theorem solve_solved_cube:
  "\<exists>s'. solve rot (AStarSolver_init hp solved_state) = Some (Inr ([], s')) \<and>
        length (visited_nodes s') = 1 \<and> cube s' = solved_state"
  by (simp add: solve_def solve_run_solved)

theorem solve_solved_cube_witness:
  "\<exists>s'. solve rotate_90_model (AStarSolver_init [] solved_state) = Some (Inr ([], s')) \<and>
        length (visited_nodes s') = 1 \<and> cube s' = solved_state"
  by (rule solve_solved_cube)

text \<open>
  Claim C5 asks that the visited index never hold two nodes of one state, in any run of
  \<^verbatim>\<open>solve\<close>.  That holds for the successors, not for the initial node: a successor is
  appended exactly when no node of the index has its state (third part), while the
  initial node is appended without a test.  What the code ensures: when the index a
  solver starts with has pairwise different states, none of them the state of the cube
  (the empty index of a newly built solver in particular), the states of the index are
  pairwise different at every head of the main loop (first part) and when \<^verbatim>\<open>solve\<close>
  returns (second part).  The counterexample is a second call of \<^verbatim>\<open>solve\<close> on the same
  solver: the first call on a solved cube leaves a node for the solved state in the
  index, and the second appends another.
\<close>

theorem visited_index_one_node_per_state:
  assumes "references_ok s0" and "distinct (visited_states s0)"
    and "cube s0 \<notin> set (visited_states s0)"
  shows "(solve_init s0 = Inr s1 \<and> reaches rot (False, [], s1) (ended, rotations, s)
            \<longrightarrow> distinct (visited_states s)) \<and>
         (solve_run rot s0 = Some (Inr (ended', rotations', s')) \<longrightarrow> distinct (visited_states s')) \<and>
         visited_nodes (expand_loop s2 x [u]) =
           (if state (heap s2 ! u) \<in> set (visited_states s2) then visited_nodes s2
            else visited_nodes s2 @ [u])"
proof (intro conjI impI)
  assume a: "solve_init s0 = Inr s1 \<and> reaches rot (False, [], s1) (ended, rotations, s)"
  from solve_init_inv [OF assms] a have "references_ok s1 \<and> distinct (visited_states s1)" by simp
  with reaches_inv [of rot "(False, [], s1)" "(ended, rotations, s)"] a
  show "distinct (visited_states s)" by simp
next
  assume "solve_run rot s0 = Some (Inr (ended', rotations', s'))"
  then obtain s1 where i: "solve_init s0 = Inr s1" and r: "reaches rot (False, [], s1) (ended', rotations', s')"
    by (rule solve_run_result)
  from solve_init_inv [OF assms i] have "references_ok s1 \<and> distinct (visited_states s1)" .
  with reaches_inv [OF r] show "distinct (visited_states s')" by simp
next
  show "visited_nodes (expand_loop s2 x [u]) =
          (if state (heap s2 ! u) \<in> set (visited_states s2) then visited_nodes s2
           else visited_nodes s2 @ [u])"
    by (simp add: is_visited_iff)
qed

theorem visited_index_one_node_per_state_witness:
  "\<exists>e r s. solve_run rotate_90_model (AStarSolver_init [] scrambled_once) = Some (Inr (e, r, s)) \<and>
     length (visited_nodes s) = 19 \<and> distinct (visited_states s)"
proof -
  let ?s0 = "AStarSolver_init [] scrambled_once"
  from run_scrambled_once obtain e r s where
    run: "solve_run rotate_90_model ?s0 = Some (Inr (e, r, s))"
    and p: "e \<and> r = [1] \<and> length (visited_nodes s) = 19 \<and> cube s = solved_state"
    by (rule run_result_cases)
  have h: "references_ok ?s0" "distinct (visited_states ?s0)" "cube ?s0 \<notin> set (visited_states ?s0)"
    by (simp_all add: AStarSolver_init_def references_ok_def visited_states_def)
  from visited_index_one_node_per_state [OF h, of _ rotate_90_model _ _ _ e r s] run
  have "distinct (visited_states s)" by simp
  with run p show ?thesis by blast
qed

theorem second_run_duplicates_root_counterexample:
  "solve rotate_90_model (AStarSolver_init [] solved_state) = Some (Inr ([], after_first_run)) \<and>
   solve rotate_90_model after_first_run = Some (Inr ([], after_second_run)) \<and>
   visited_states after_second_run = [solved_state, solved_state] \<and>
   \<not> distinct (visited_states after_second_run)"
  by code_simp

text \<open>
  Claim C6: \<^verbatim>\<open>update_parent\<close> with a candidate parent \<open>p\<close> computes the tentative
  \<open>f\<close> as the \<open>g\<close> of \<open>p\<close> plus 1 plus the node's own \<open>h\<close>; when that is strictly below
  the node's \<open>f\<close> it rebinds the parent and stores the new \<open>g\<close> and \<open>f\<close>, and otherwise
  changes nothing.  So after any sequence of such calls on a node (candidates that are
  nodes or \<^verbatim>\<open>None\<close>) its \<open>f\<close> is at most what it was.
\<close>

theorem update_parent_never_raises_f:
  assumes "self < length hp"
  shows "f (foldl (\<lambda>hp' cand. update_parent hp' self cand) hp cands ! self) \<le> f (hp ! self) \<and>
         update_parent hp self (Some p) =
           (if of_int (g (hp ! p) + 1) + h (hp ! self) < f (hp ! self)
            then hp[self := (hp ! self)\<lparr>parent := Some p, g := g (hp ! p) + 1,
                                          f := of_int (g (hp ! p) + 1) + h (hp ! self)\<rparr>]
            else hp)"
  using foldl_update_parent_f_le [of self hp cands] update_parent_at [OF assms, of p] by simp

theorem update_parent_never_raises_f_witness:
  "(1::nat) < length [AStarNode_init [] False None 0 1 None, AStarNode_init [] False None 5 1 None] \<and>
   update_parent [AStarNode_init [] False None 0 1 None, AStarNode_init [] False None 5 1 None] 1 (Some 0)
     = [AStarNode_init [] False None 0 1 None, AStarNode_init [] False (Some 0) 1 1 None] \<and>
   f (foldl (\<lambda>hp' cand. update_parent hp' 1 cand)
        [AStarNode_init [] False None 0 1 None, AStarNode_init [] False None 5 1 None]
        [Some 1, None, Some 0] ! 1) \<le> 6"
proof -
  let ?hp = "[AStarNode_init [] False None 0 1 None, AStarNode_init [] False None 5 1 None]"
  have l: "(1::nat) < length ?hp" by simp
  from update_parent_never_raises_f [OF l, of "[Some 1, None, Some 0]" 0]
  show ?thesis by (simp add: AStarNode_init_def)
qed

text \<open>
  Claim C7 asks that an emptied frontier be reported as a failure that the caller can
  tell from a success.  What the code does: when the main loop comes to its head with
  the frontier empty and no popped state was the solved one, \<^verbatim>\<open>solve\<close> returns, without
  an exception, the empty list of rotations, which is also what it returns for a cube
  that is solved already.  The counterexample is the cube of one colour: its search is
  exhausted after one pass, and list and number of visited nodes are those of the run on
  the solved cube.
\<close>

theorem exhausted_search_returns_empty_list:
  assumes "solve_init s0 = Inr s1" and "reaches rot (False, [], s1) (False, rotations, s)"
    and "Q s = []"
  shows "solve rot s0 = Some (Inr ([], s)) \<and>
         (\<exists>s'. solve rot (AStarSolver_init hp solved_state) = Some (Inr ([], s')))"
proof -
  from reaches_rotations [OF assms(2)] have r: "rotations = []" by simp
  from reaches_solve_loop [OF assms(2)]
  have "solve_loop rot False [] s1 = solve_loop rot False rotations s" by simp
  also have "\<dots> = Some (Inr (False, rotations, s))" using assms(3) by (intro solve_loop_exit) simp
  finally have "solve_run rot s0 = Some (Inr (False, [], s))"
    using assms(1) r by (simp add: solve_run_def)
  then show ?thesis by (simp add: solve_def solve_run_solved)
qed

theorem exhausted_search_returns_empty_list_witness:
  "\<exists>s. solve rotate_90_model (AStarSolver_init [] monochrome) = Some (Inr ([], s)) \<and>
       Q s = [] \<and> cube s = monochrome \<and> monochrome \<noteq> solved_state"
proof -
  let ?s0 = "AStarSolver_init [] monochrome"
  from run_monochrome obtain e r s where
    run: "solve_run rotate_90_model ?s0 = Some (Inr (e, r, s))"
    and p: "\<not> e \<and> r = [] \<and> visited_nodes s = [0] \<and> cube s = monochrome"
    by (rule run_result_cases)
  from run obtain s1 where i: "solve_init ?s0 = Inr s1"
    and re: "reaches rotate_90_model (False, [], s1) (e, r, s)" and fin: "fst (e, r, s) \<or> Q (snd (snd (e, r, s))) = []"
    by (rule solve_run_result)
  from p fin have q: "Q s = []" by simp
  from p re have re': "reaches rotate_90_model (False, [], s1) (False, [], s)" by simp
  from exhausted_search_returns_empty_list [OF i re' q]
  have "solve rotate_90_model ?s0 = Some (Inr ([], s))" by simp
  moreover have "monochrome \<noteq> solved_state" by code_simp
  ultimately show ?thesis using q p by blast
qed

theorem exhaustion_not_distinguished_counterexample:
  "map_option (map_sum id (\<lambda>res. (fst res, length (visited_nodes (snd res)))))
       (solve rotate_90_model (AStarSolver_init [] monochrome))
     = map_option (map_sum id (\<lambda>res. (fst res, length (visited_nodes (snd res)))))
       (solve rotate_90_model (AStarSolver_init [] solved_state)) \<and>
   map_option (map_sum id fst) (solve_run rotate_90_model (AStarSolver_init [] monochrome))
     = Some (Inr False) \<and>
   map_option (map_sum id fst) (solve_run rotate_90_model (AStarSolver_init [] solved_state))
     = Some (Inr True) \<and>
   valid_state monochrome"
  by code_simp



text \<open>
  Claim C9: for every piece 0 to 19 and every state \<^verbatim>\<open>correct_orientation\<close> returns a
  boolean, never the IndexError of a lookup \<^verbatim>\<open>dict_cubies[cubie][i]\<close> out of range: the
  colour list has 3 entries for a corner and 2 for an edge, the piece heads no more pairs
  of the list than \<open>cube_map\<close> names it, \<open>cube_map\<close> names it no more often than the
  colour list is long, and the loop started at index \<open>i\<close> is safe whenever \<open>i\<close> plus the
  number of pairs of the piece still ahead is at most that length.
\<close>

theorem correct_orientation_index_in_bounds:
  assumes "0 \<le> cubie" and "cubie < 20"
  shows "(\<exists>b. correct_orientation (list_of_pairs_of st) cubie = Inr (Some b)) \<and>
         (\<exists>cols. dict_cubies cubie = Some cols \<and> length cols = (if cubie < 8 then 3 else 2) \<and>
                 pair_count cubie (list_of_pairs_of st) \<le> cube_map_count cubie \<and>
                 cube_map_count cubie \<le> length cols \<and>
                 (\<forall>i ps. i + pair_count cubie ps \<le> length cols \<longrightarrow>
                    (\<exists>b. correct_orientation_loop cubie i ps = Inr b)))"
proof -
  from dict_cubies_len [OF assms] obtain cols
    where d: "dict_cubies cubie = Some cols" and n: "cube_map_count cubie \<le> length cols" by blast
  from dict_cubies_length [OF assms] d have l: "length cols = (if cubie < 8 then 3 else 2)" by simp
  have "\<forall>i ps. i + pair_count cubie ps \<le> length cols \<longrightarrow> (\<exists>b. correct_orientation_loop cubie i ps = Inr b)"
    using correct_orientation_loop_total [OF d] by blast
  with d n l pair_count_list_of_pairs [of cubie st] correct_orientation_total [OF assms, of st]
  show ?thesis by blast
qed

theorem correct_orientation_index_in_bounds_witness:
  "(0::int) \<le> 4 \<and> (4::int) < 20 \<and>
   correct_orientation (list_of_pairs_of monochrome) 4 = Inr (Some False) \<and>
   pair_count 4 (list_of_pairs_of monochrome) = 3 \<and> cube_map_count 4 = 3 \<and>
   dict_cubies 4 = Some [1, 2, 4]"
proof -
  have a: "correct_orientation (list_of_pairs_of monochrome) 4 = Inr (Some False)" by code_simp
  have c: "pair_count 4 (list_of_pairs_of monochrome) = 3" by code_simp
  have d: "cube_map_count 4 = 3" by code_simp
  have e: "dict_cubies 4 = Some [1, 2, 4]" by code_simp
  have "(0::int) \<le> 4" "(4::int) < 20" by simp_all
  from correct_orientation_index_in_bounds [OF this, of monochrome] a c d e
  show ?thesis by simp
qed

text \<open>
  Claim C10: every pass through the body of the main loop leaves the solver's cube
  holding the state of the node it popped, and when \<^verbatim>\<open>solve\<close> ends through the solved
  branch (\<open>ended\<close> is true) the cube holds the solved state.
\<close>

theorem solve_overwrites_cube:
  "(solve_body rot rotations s = Some (Inr (ended', rotations', s'))
      \<longrightarrow> (\<exists>x s1. get_best_node s = Inr (Some x, s1) \<and> cube s' = state (heap s ! x))) \<and>
   (solve_run rot s0 = Some (Inr (True, rotations'', s'')) \<longrightarrow> cube s'' = solved_state)"
proof (intro conjI impI)
  assume "solve_body rot rotations s = Some (Inr (ended', rotations', s'))"
  from solve_body_cube [OF this]
  show "\<exists>x s1. get_best_node s = Inr (Some x, s1) \<and> cube s' = state (heap s ! x)" by blast
next
  assume "solve_run rot s0 = Some (Inr (True, rotations'', s''))"
  then obtain s1 where "reaches rot (False, [], s1) (True, rotations'', s'')"
    by (rule solve_run_result)
  from reaches_cube [OF this] show "cube s'' = solved_state" by simp
qed

theorem solve_overwrites_cube_witness:
  "\<exists>r s. solve_run rotate_90_model (AStarSolver_init [] scrambled_once) = Some (Inr (True, r, s)) \<and>
     cube s = solved_state \<and> cube (AStarSolver_init [] scrambled_once) \<noteq> solved_state"
proof -
  let ?s0 = "AStarSolver_init [] scrambled_once"
  from run_scrambled_once obtain e r s where
    run: "solve_run rotate_90_model ?s0 = Some (Inr (e, r, s))"
    and p: "e \<and> r = [1] \<and> length (visited_nodes s) = 19 \<and> cube s = solved_state"
    by (rule run_result_cases)
  from run p have run': "solve_run rotate_90_model ?s0 = Some (Inr (True, r, s))" by simp
  from solve_overwrites_cube [THEN conjunct2, rule_format, OF run']
  have "cube s = solved_state" .
  moreover have "cube ?s0 \<noteq> solved_state" by code_simp
  ultimately show ?thesis using run' by blast
qed

end
